theory Spec2Isabelle
  imports Complex_Main "HOL-Library.Word"
begin

unbundle bit_operations_syntax

section \<open>Data model\<close>

subsection \<open>Double-precision values\<close>

text \<open>
  A C \<open>double\<close> is modelled by its value: a finite number with its sign kept apart from
  its magnitude (so that \<open>-0.0\<close> differs from \<open>0.0\<close>), a signed infinity, or NaN.
  \<open>Finite s m\<close> stands for \<open>(-1)^s * m\<close> with \<open>m \<ge> 0\<close>; the sign flag is \<open>True\<close> for
  negative values.
\<close>

datatype double = Finite bool rat | Infinity bool | NaN

subsection \<open>inc/mem\_cache.h: the sample\<close>

text \<open>
  \<^verbatim>\<open>typedef struct __attribute__((packed)) {
      uint32_t imu[IMU_SAMPLE_LEN];
      double temp[TEMP_SAMPLE_LEN];
  } sensor_sample_t;\<close>
\<close>

definition IMU_SAMPLE_LEN :: nat where
  "IMU_SAMPLE_LEN = 20"

definition TEMP_SAMPLE_LEN :: nat where
  "TEMP_SAMPLE_LEN = 3"

record sensor_sample_t =
  imu :: "32 word list"
  temp :: "double list"

subsection \<open>src/mem\_cache.c: the cache\<close>

text \<open>
  \<^verbatim>\<open>struct mem_cache_t {
      sensor_sample_t data[CONFIG_CACHE_SIZE];
      size_t write_idx;
      size_t read_idx;
      size_t count;
      struct k_mutex lock;
  };\<close>

  \<open>CONFIG_CACHE_SIZE\<close> is a build-time configuration constant that the sources do not
  fix; every operation takes it as its first argument. The \<open>size_t\<close> fields are
  natural numbers: on every state reachable from \<open>mem_cache_init\<close> they stay within
  \<open>0 .. CONFIG_CACHE_SIZE\<close> (lemmas \<open>cache_inv_reachable\<close> and \<open>cache_inv_in_range\<close>
  below), where the C arithmetic \<open>+ 1\<close>, \<open>- 1\<close> and \<open>%\<close> does not wrap. The mutex is held from the first
  to the last statement of each operation, so each operation is one atomic state
  transformer, and the lock itself is not part of the modelled state.
\<close>

record mem_cache_t =
  data :: "sensor_sample_t list"
  write_idx :: nat
  read_idx :: nat
  count :: nat

section \<open>src/mem\_cache.c: operations\<close>

text \<open>
  \<^verbatim>\<open>bool mem_cache_push(const sensor_sample_t *sample)\<close>: returns the flag and the cache
  after the call.
\<close>

definition mem_cache_push ::
  "nat \<Rightarrow> mem_cache_t \<Rightarrow> sensor_sample_t \<Rightarrow> bool \<times> mem_cache_t" where
  "mem_cache_push CONFIG_CACHE_SIZE cache sample =
     (if count cache = CONFIG_CACHE_SIZE then (False, cache)
      else (True,
            cache\<lparr>data := (data cache)[write_idx cache := sample],
                  write_idx := (write_idx cache + 1) mod CONFIG_CACHE_SIZE,
                  count := count cache + 1\<rparr>))"

text \<open>
  \<^verbatim>\<open>bool mem_cache_pop(sensor_sample_t *out)\<close>: the caller's buffer \<open>*out\<close> is passed in
  with its contents before the call and returned with its contents after the call.
\<close>

definition mem_cache_pop ::
  "nat \<Rightarrow> mem_cache_t \<Rightarrow> sensor_sample_t \<Rightarrow> bool \<times> mem_cache_t \<times> sensor_sample_t" where
  "mem_cache_pop CONFIG_CACHE_SIZE cache out =
     (if count cache = 0 then (False, cache, out)
      else (True,
            cache\<lparr>read_idx := (read_idx cache + 1) mod CONFIG_CACHE_SIZE,
                  count := count cache - 1\<rparr>,
            data cache ! read_idx cache))"

definition mem_cache_count :: "mem_cache_t \<Rightarrow> nat" where
  "mem_cache_count cache = count cache"

text \<open>
  \<^verbatim>\<open>static int mem_cache_init(void)\<close> resets the three indices of the statically
  allocated cache and leaves the slots as they are.
\<close>

definition mem_cache_init :: "mem_cache_t \<Rightarrow> mem_cache_t" where
  "mem_cache_init cache = cache\<lparr>count := 0, read_idx := 0, write_idx := 0\<rparr>"

section \<open>Histories of cache operations\<close>

text \<open>
  A caller either pushes a sample or pops into a buffer of its own; \<open>Pop out\<close> carries what
  that buffer held before the call. A call leaves an event: \<open>Push_ret sample ok\<close> for a push
  of \<open>sample\<close> that returned \<open>ok\<close>, \<open>Pop_ret ok out\<close> for a pop that returned \<open>ok\<close> and left
  \<open>out\<close> in the caller's buffer.
\<close>

datatype cache_op = Push sensor_sample_t | Pop sensor_sample_t

datatype event = Push_ret sensor_sample_t bool | Pop_ret bool sensor_sample_t

fun step :: "nat \<Rightarrow> mem_cache_t \<Rightarrow> cache_op \<Rightarrow> mem_cache_t \<times> event" where
  "step C cache (Push sample) =
     (case mem_cache_push C cache sample of (ok, cache') \<Rightarrow> (cache', Push_ret sample ok))"
| "step C cache (Pop out) =
     (case mem_cache_pop C cache out of (ok, cache', out') \<Rightarrow> (cache', Pop_ret ok out'))"

text \<open>\<open>run\<close> performs the calls from left to right and records their events.\<close>

fun run :: "nat \<Rightarrow> mem_cache_t \<Rightarrow> cache_op list \<Rightarrow> mem_cache_t \<times> event list" where
  "run C cache [] = (cache, [])"
| "run C cache (x # xs) =
     (case step C cache x of (cache', e) \<Rightarrow>
        (case run C cache' xs of (cache'', h) \<Rightarrow> (cache'', e # h)))"

text \<open>The samples passed to push calls, whether accepted or not.\<close>

fun pushed :: "event list \<Rightarrow> sensor_sample_t list" where
  "pushed [] = []"
| "pushed (Push_ret sample ok # h) = sample # pushed h"
| "pushed (Pop_ret ok out # h) = pushed h"

text \<open>The samples passed to push calls that returned true.\<close>

fun accepted :: "event list \<Rightarrow> sensor_sample_t list" where
  "accepted [] = []"
| "accepted (Push_ret sample ok # h) = (if ok then sample # accepted h else accepted h)"
| "accepted (Pop_ret ok out # h) = accepted h"

text \<open>The samples handed back by pop calls that returned true.\<close>

fun popped :: "event list \<Rightarrow> sensor_sample_t list" where
  "popped [] = []"
| "popped (Push_ret sample ok # h) = popped h"
| "popped (Pop_ret ok out # h) = (if ok then out # popped h else popped h)"

text \<open>Whether some push call of the history returned false.\<close>

fun rejected :: "event list \<Rightarrow> bool" where
  "rejected [] = False"
| "rejected (Push_ret sample ok # h) = (if ok then rejected h else True)"
| "rejected (Pop_ret ok out # h) = rejected h"

text \<open>
  The occupied slots, oldest first: \<open>count\<close> slots from the read cursor on, wrapping at
  the capacity.
\<close>

definition contents :: "nat \<Rightarrow> mem_cache_t \<Rightarrow> sensor_sample_t list" where
  "contents C cache =
     map (\<lambda>i. data cache ! ((read_idx cache + i) mod C)) [0..<count cache]"

text \<open>
  The shape of every cache reachable from \<open>mem_cache_init\<close>: all \<open>C\<close> slots exist, the
  read cursor is a valid index, at most \<open>C\<close> slots are occupied and the write cursor is
  \<open>count\<close> positions ahead of the read cursor.
\<close>

definition cache_inv :: "nat \<Rightarrow> mem_cache_t \<Rightarrow> bool" where
  "cache_inv C cache \<longleftrightarrow>
     length (data cache) = C \<and> read_idx cache < C \<and> count cache \<le> C \<and>
     write_idx cache = (read_idx cache + count cache) mod C"

text \<open>
  The bounded queue the specification describes, on plain lists: a push appends at the
  back unless \<open>C\<close> samples are queued, a pop removes the front unless the queue is empty.
\<close>

fun queue_step ::
  "nat \<Rightarrow> sensor_sample_t list \<Rightarrow> cache_op \<Rightarrow> sensor_sample_t list \<times> event" where
  "queue_step C q (Push sample) =
     (if length q = C then (q, Push_ret sample False) else (q @ [sample], Push_ret sample True))"
| "queue_step C [] (Pop out) = ([], Pop_ret False out)"
| "queue_step C (x # q) (Pop out) = (q, Pop_ret True x)"

fun queue_run ::
  "nat \<Rightarrow> sensor_sample_t list \<Rightarrow> cache_op list \<Rightarrow> sensor_sample_t list \<times> event list" where
  "queue_run C q [] = (q, [])"
| "queue_run C q (x # xs) =
     (case queue_step C q x of (q', e) \<Rightarrow>
        (case queue_run C q' xs of (q'', h) \<Rightarrow> (q'', e # h)))"

text \<open>
  The statically allocated \<^verbatim>\<open>static struct mem_cache_t cache;\<close> before
  \<open>mem_cache_init\<close> runs: C zero-initialises it, so every slot holds zeros.
\<close>

definition zero_sample :: sensor_sample_t where
  "zero_sample =
     \<lparr>imu = replicate IMU_SAMPLE_LEN 0, temp = replicate TEMP_SAMPLE_LEN (Finite False 0)\<rparr>"

definition static_cache :: "nat \<Rightarrow> mem_cache_t" where
  "static_cache C = \<lparr>data = replicate C zero_sample, write_idx = 0, read_idx = 0, count = 0\<rparr>"

text \<open>A sample whose channels all carry the same reading, to tell samples apart in examples.\<close>

definition flat_sample :: "32 word \<Rightarrow> sensor_sample_t" where
  "flat_sample v =
     \<lparr>imu = replicate IMU_SAMPLE_LEN v, temp = replicate TEMP_SAMPLE_LEN (Finite False 0)\<rparr>"

section \<open>src/sensor\_mock.c: the float16 decoder\<close>

subsection \<open>Operations on doubles\<close>

text \<open>
  The arithmetic of \<open>uint16_to_double\<close>, with exact results. IEEE-754 arithmetic returns
  the exact result whenever it is representable, which lemma \<open>uint16_to_double_exact\<close>
  shows for every value the decoder computes; so no rounding is modelled.
\<close>

definition double_of_uint16 :: "16 word \<Rightarrow> double" where
  "double_of_uint16 w = Finite False (of_nat (unat w))"

fun ldexp :: "double \<Rightarrow> int \<Rightarrow> double" where
  "ldexp (Finite s m) e = Finite s (m * 2 powi e)"
| "ldexp (Infinity s) e = Infinity s"
| "ldexp NaN e = NaN"

fun double_neg :: "double \<Rightarrow> double" where
  "double_neg (Finite s m) = Finite (\<not> s) m"
| "double_neg (Infinity s) = Infinity (\<not> s)"
| "double_neg NaN = NaN"

fun double_div :: "double \<Rightarrow> double \<Rightarrow> double" where
  "double_div (Finite s a) (Finite t b) =
     (if b = 0 then (if a = 0 then NaN else Infinity (s \<noteq> t)) else Finite (s \<noteq> t) (a / b))"
| "double_div (Finite s a) (Infinity t) = Finite (s \<noteq> t) 0"
| "double_div (Infinity s) (Finite t b) = Infinity (s \<noteq> t)"
| "double_div (Infinity s) (Infinity t) = NaN"
| "double_div NaN y = NaN"
| "double_div x NaN = NaN"

definition signed_value :: "bool \<Rightarrow> rat \<Rightarrow> rat" where
  "signed_value s m = (if s then - m else m)"

fun double_add :: "double \<Rightarrow> double \<Rightarrow> double" where
  "double_add (Finite s a) (Finite t b) =
     (let v = signed_value s a + signed_value t b
      in if v = 0 then Finite (s \<and> t) 0 else Finite (v < 0) \<bar>v\<bar>)"
| "double_add (Finite s a) (Infinity t) = Infinity t"
| "double_add (Infinity s) (Finite t b) = Infinity s"
| "double_add (Infinity s) (Infinity t) = (if s = t then Infinity s else NaN)"
| "double_add NaN y = NaN"
| "double_add x NaN = NaN"

definition INFINITY :: double where
  "INFINITY = Infinity False"

subsection \<open>The decoder\<close>

text \<open>
  \<^verbatim>\<open>static double uint16_to_double(uint16_t u16)\<close>, the branch compiled with
  \<open>UINT16_TO_DOUBLE_SCALABLE\<close> set to 0. In \<open>exp - 15\<close> the C promotes \<open>exp\<close> to \<open>int\<close>, so
  the difference is an integer that may be negative.
\<close>

definition uint16_to_double :: "16 word \<Rightarrow> double" where
  "uint16_to_double u16 =
     (let sign = drop_bit 15 u16 AND 0x1;
          expn = drop_bit 10 u16 AND 0x1F;
          mant = u16 AND 0x03FF
      in if expn = 0 then
           (let val = ldexp (double_of_uint16 mant) (- 24)
            in if sign \<noteq> 0 then double_neg val else val)
         else if expn = 31 then
           (if mant \<noteq> 0 then NaN else (if sign \<noteq> 0 then double_neg INFINITY else INFINITY))
         else
           (let val = ldexp (double_add (Finite False 1)
                               (double_div (double_of_uint16 mant) (Finite False 1024)))
                            (uint expn - 15)
            in if sign \<noteq> 0 then double_neg val else val))"

text \<open>
  The decoding as the specification words it, on the raw value as a number: the sign is
  bit 15, the exponent field bits 10 to 14, the mantissa bits 0 to 9.
\<close>

definition half_sign :: "nat \<Rightarrow> bool" where
  "half_sign raw = (raw div 2 ^ 15 mod 2 = 1)"

definition half_exponent :: "nat \<Rightarrow> nat" where
  "half_exponent raw = raw div 2 ^ 10 mod 2 ^ 5"

definition half_mantissa :: "nat \<Rightarrow> nat" where
  "half_mantissa raw = raw mod 2 ^ 10"

definition half_precision_value :: "nat \<Rightarrow> double" where
  "half_precision_value raw =
     (if half_exponent raw = 0 then
        Finite (half_sign raw) (of_nat (half_mantissa raw) * 2 powi (- 24))
      else if half_exponent raw = 31 then
        (if half_mantissa raw \<noteq> 0 then NaN else Infinity (half_sign raw))
      else
        Finite (half_sign raw)
          ((1 + of_nat (half_mantissa raw) / 1024) * 2 powi (int (half_exponent raw) - 15)))"

text \<open>
  A magnitude is a binary64 magnitude when it is an integer below \<open>2 ^ 53\<close> scaled by a
  power of two within the exponent range of the format.
\<close>

definition binary64_exact :: "rat \<Rightarrow> bool" where
  "binary64_exact m \<longleftrightarrow>
     (\<exists>k e. k < (2::nat) ^ 53 \<and> - 1074 \<le> e \<and> e \<le> 971 \<and> m = of_nat k * 2 powi e)"

fun representable :: "double \<Rightarrow> bool" where
  "representable (Finite s m) = binary64_exact m"
| "representable (Infinity s) = True"
| "representable NaN = True"

section \<open>The periodic handlers\<close>

text \<open>
  What a handler does besides changing the cache: the log lines it emits (format string
  and arguments) and the calls it makes, in order.
\<close>

datatype log_entry = LOG_WRN string "int list"

type_synonym bt_conn = nat

datatype call = Call_pop | Call_notify bt_conn sensor_sample_t | Call_push sensor_sample_t

subsection \<open>src/sensor\_mock.c: the producer\<close>

text \<open>
  \<^verbatim>\<open>static void sample_timer_handler(struct k_timer *timer)\<close>. \<open>rand k\<close> is what the
  \<open>k\<close>-th call of \<open>rand()\<close> in this activation returns; the assignments convert it to
  \<open>uint32_t\<close> and to \<open>uint16_t\<close>.
\<close>

definition sample_timer_handler ::
  "nat \<Rightarrow> (nat \<Rightarrow> int) \<Rightarrow> mem_cache_t \<Rightarrow> mem_cache_t \<times> log_entry list" where
  "sample_timer_handler C rand cache =
     (let sample =
        \<lparr>imu = map (\<lambda>i. word_of_int (rand i)) [0..<IMU_SAMPLE_LEN],
         temp = map (\<lambda>i. uint16_to_double (word_of_int (rand (IMU_SAMPLE_LEN + i))))
                  [0..<TEMP_SAMPLE_LEN]\<rparr>
      in case mem_cache_push C cache sample of
           (ok, cache') \<Rightarrow>
             (cache', if \<not> ok then [LOG_WRN ''Sample cache full, dropping sample'' []] else []))"

subsection \<open>src/main.c: the consumer\<close>

text \<open>
  The fields of \<open>app_data_t\<close> the handler reads; \<open>current_conn\<close> is a pointer, \<open>None\<close> when
  it is \<open>NULL\<close>.
\<close>

record app_data_t =
  current_conn :: "bt_conn option"
  notify_enabled :: bool

text \<open>
  \<^verbatim>\<open>static void tx_timer_handler(struct k_timer *timer)\<close>. \<open>bt_gatt_notify\<close> is the
  transport's function, taken as a parameter: it returns 0 on success. \<open>sample\<close> is what
  the handler's local buffer holds when the activation starts.
\<close>

definition tx_timer_handler ::
  "nat \<Rightarrow> (bt_conn \<Rightarrow> sensor_sample_t \<Rightarrow> int) \<Rightarrow> app_data_t \<Rightarrow> sensor_sample_t \<Rightarrow>
   mem_cache_t \<Rightarrow> mem_cache_t \<times> log_entry list \<times> call list" where
  "tx_timer_handler C bt_gatt_notify app_data sample cache =
     (case current_conn app_data of
        None \<Rightarrow> (cache, [], [])
      | Some conn \<Rightarrow>
          if \<not> notify_enabled app_data then (cache, [], [])
          else
            (case mem_cache_pop C cache sample of
               (ok, cache1, sample1) \<Rightarrow>
                 if \<not> ok then (cache1, [], [Call_pop])
                 else
                   (let err = bt_gatt_notify conn sample1
                    in if err \<noteq> 0 then
                         (case mem_cache_push C cache1 sample1 of
                            (requeued, cache2) \<Rightarrow>
                              (cache2,
                               [LOG_WRN ''Notify failed (err %d), re-pushing sample to cache'' [err]],
                               [Call_pop, Call_notify conn sample1, Call_push sample1]))
                       else (cache1, [], [Call_pop, Call_notify conn sample1]))))"

section \<open>The cache is a bounded queue\<close>

lemma mod_shift_inj:
  fixes r i n C :: nat
  assumes "i < n" "n < C"
  shows "(r + i) mod C \<noteq> (r + n) mod C"
proof
  assume eq: "(r + i) mod C = (r + n) mod C"
  have "r + i \<le> r + n" using assms by simp
  from mod_eq_dvd_iff_nat [OF this, of C] eq
  have "C dvd (r + n) - (r + i)" by simp
  then have "C dvd n - i" by simp
  moreover have "0 < n - i" "n - i < C" using assms by simp_all
  ultimately show False by (meson dvd_imp_le not_less)
qed

lemma cache_inv_push:
  assumes "cache_inv C cache"
  shows "cache_inv C (snd (mem_cache_push C cache sample))"
  using assms by (auto simp: cache_inv_def mem_cache_push_def mod_simps)

lemma cache_inv_pop:
  assumes "cache_inv C cache"
  shows "cache_inv C (fst (snd (mem_cache_pop C cache out)))"
proof (cases "count cache = 0")
  case True
  with assms show ?thesis by (simp add: mem_cache_pop_def)
next
  case False
  then obtain n where n: "count cache = Suc n" by (cases "count cache") simp_all
  with assms show ?thesis
    by (simp add: cache_inv_def mem_cache_pop_def mod_simps)
qed

lemma contents_push:
  assumes "cache_inv C cache" "count cache \<noteq> C"
  shows "contents C (snd (mem_cache_push C cache sample)) = contents C cache @ [sample]"
proof -
  let ?w = "write_idx cache"
  have n: "count cache < C" using assms by (simp add: cache_inv_def)
  have w: "?w = (read_idx cache + count cache) mod C" "?w < length (data cache)"
    using assms by (simp_all add: cache_inv_def)
  have old: "(data cache)[?w := sample] ! ((read_idx cache + i) mod C) =
             data cache ! ((read_idx cache + i) mod C)" if "i < count cache" for i
    using mod_shift_inj [OF that n, of "read_idx cache"] w(1) by simp
  have new: "(data cache)[?w := sample] ! ((read_idx cache + count cache) mod C) = sample"
    using w by simp
  show ?thesis
    using assms(2) old new by (simp add: contents_def mem_cache_push_def)
qed

lemma contents_pop:
  assumes "cache_inv C cache" "count cache \<noteq> 0"
  shows "contents C cache =
         snd (snd (mem_cache_pop C cache out)) # contents C (fst (snd (mem_cache_pop C cache out)))"
proof -
  obtain n where n: "count cache = Suc n" using assms(2) by (cases "count cache") simp_all
  have r: "read_idx cache mod C = read_idx cache" using assms(1) by (simp add: cache_inv_def)
  have "[0..<Suc n] = 0 # map Suc [0..<n]"
    by (simp add: upt_conv_Cons map_Suc_upt del: upt_Suc)
  then show ?thesis
    using n r by (simp add: contents_def mem_cache_pop_def mod_simps del: upt_Suc)
qed

lemma length_contents: "length (contents C cache) = count cache"
  by (simp add: contents_def)

lemma step_refines:
  assumes "cache_inv C cache"
  shows "cache_inv C (fst (step C cache x)) \<and>
         queue_step C (contents C cache) x = (contents C (fst (step C cache x)), snd (step C cache x))"
proof (cases x)
  case (Push sample)
  show ?thesis
  proof (cases "count cache = C")
    case True
    with assms Push show ?thesis
      by (simp add: mem_cache_push_def length_contents)
  next
    case False
    have "fst (mem_cache_push C cache sample)" using False by (simp add: mem_cache_push_def)
    with False Push assms cache_inv_push [OF assms, of sample] contents_push [OF assms False, of sample]
    show ?thesis
      by (simp add: length_contents case_prod_beta)
  qed
next
  case (Pop out)
  show ?thesis
  proof (cases "count cache = 0")
    case True
    then have "contents C cache = []" by (simp add: contents_def)
    with True assms Pop show ?thesis
      by (simp add: mem_cache_pop_def)
  next
    case False
    have "fst (mem_cache_pop C cache out)" using False by (simp add: mem_cache_pop_def)
    with False Pop assms cache_inv_pop [OF assms, of out] contents_pop [OF assms False, of out]
    show ?thesis
      by (simp add: case_prod_beta)
  qed
qed

lemma run_refines:
  assumes "cache_inv C cache"
  shows "cache_inv C (fst (run C cache xs)) \<and>
         queue_run C (contents C cache) xs = (contents C (fst (run C cache xs)), snd (run C cache xs))"
  using assms
proof (induction xs arbitrary: cache)
  case Nil
  then show ?case by simp
next
  case (Cons x xs)
  from step_refines [OF Cons.prems, of x] Cons.IH [of "fst (step C cache x)"]
  show ?case by (simp add: case_prod_beta)
qed

lemma queue_run_fifo:
  "q @ accepted (snd (queue_run C q xs)) = popped (snd (queue_run C q xs)) @ fst (queue_run C q xs)"
proof (induction xs arbitrary: q)
  case Nil
  show ?case by simp
next
  case (Cons x xs)
  show ?case
  proof (cases "(C, q, x)" rule: queue_step.cases)
    case (1 C' q' sample)
    with Cons.IH [of q] Cons.IH [of "q @ [sample]"] show ?thesis
      by (simp add: case_prod_beta)
  next
    case (2 C' out)
    with Cons.IH [of "[]"] show ?thesis by (simp add: case_prod_beta)
  next
    case (3 C' y q' out)
    with Cons.IH [of q'] show ?thesis by (simp add: case_prod_beta)
  qed
qed

lemma accepted_pushed: "\<not> rejected h \<Longrightarrow> accepted h = pushed h"
  by (induction h rule: rejected.induct) (simp_all split: if_splits)

lemma run_count:
  "count (fst (run C cache xs)) + length (popped (snd (run C cache xs))) =
   count cache + length (accepted (snd (run C cache xs)))"
proof (induction xs arbitrary: cache)
  case Nil
  show ?case by simp
next
  case (Cons x xs)
  show ?case
  proof (cases x)
    case (Push sample)
    with Cons.IH [of "snd (mem_cache_push C cache sample)"] show ?thesis
      by (simp add: case_prod_beta mem_cache_push_def)
  next
    case (Pop out)
    with Cons.IH [of "fst (snd (mem_cache_pop C cache out))"] show ?thesis
      by (simp add: case_prod_beta mem_cache_pop_def)
  qed
qed

lemma run_count_le:
  "count cache \<le> C \<Longrightarrow> count (fst (run C cache xs)) \<le> C"
proof (induction xs arbitrary: cache)
  case Nil
  then show ?case by simp
next
  case (Cons x xs)
  show ?case
  proof (cases x)
    case (Push sample)
    have "count (snd (mem_cache_push C cache sample)) \<le> C"
      using Cons.prems by (simp add: mem_cache_push_def)
    from Cons.IH [OF this] Push show ?thesis by (simp add: case_prod_beta)
  next
    case (Pop out)
    have "count (fst (snd (mem_cache_pop C cache out))) \<le> C"
      using Cons.prems by (auto simp: mem_cache_pop_def)
    from Cons.IH [OF this] Pop show ?thesis by (simp add: case_prod_beta)
  qed
qed

text \<open>
  On a cache of this shape both array accesses are within the \<open>C\<close> slots and no index
  leaves \<open>0 .. C\<close>, so the \<open>size_t\<close> arithmetic of the C code does not wrap; and every
  cache reached from \<open>mem_cache_init\<close> has this shape.
\<close>

lemma cache_inv_in_range:
  assumes "cache_inv C cache"
  shows "write_idx cache < length (data cache) \<and> read_idx cache < length (data cache) \<and>
         write_idx cache + 1 \<le> C \<and> read_idx cache + 1 \<le> C \<and> count cache \<le> C"
  using assms by (simp add: cache_inv_def Suc_leI)

lemma cache_inv_reachable:
  assumes "0 < C" and "length (data cache0) = C"
  shows "cache_inv C (fst (run C (mem_cache_init cache0) xs))"
proof -
  have "cache_inv C (mem_cache_init cache0)"
    using assms by (simp add: cache_inv_def mem_cache_init_def)
  from run_refines [OF this, of xs] show ?thesis by simp
qed

section \<open>Rejected operations leave the cache alone\<close>

text \<open>
  Claim C1. Whenever \<open>count\<close> equals the capacity, \<open>mem_cache_push\<close> returns false and the
  cache after the call is the cache before the call: the same \<open>count\<close>, the same write
  and read cursors and the same sample in every slot, so no older entry is evicted.
\<close>

theorem push_full_rejected:
  "count cache = C \<Longrightarrow>
   fst (mem_cache_push C cache sample) = False \<and>
   snd (mem_cache_push C cache sample) = cache \<and>
   count (snd (mem_cache_push C cache sample)) = count cache \<and>
   write_idx (snd (mem_cache_push C cache sample)) = write_idx cache \<and>
   read_idx (snd (mem_cache_push C cache sample)) = read_idx cache \<and>
   data (snd (mem_cache_push C cache sample)) = data cache \<and>
   contents C (snd (mem_cache_push C cache sample)) = contents C cache"
  by (simp add: mem_cache_push_def)

theorem push_full_rejected_witness:
  "count \<lparr>data = [flat_sample 1, flat_sample 2], write_idx = 1, read_idx = 1, count = 2\<rparr> = 2 \<and>
   mem_cache_push 2
     \<lparr>data = [flat_sample 1, flat_sample 2], write_idx = 1, read_idx = 1, count = 2\<rparr>
     (flat_sample 3) =
   (False, \<lparr>data = [flat_sample 1, flat_sample 2], write_idx = 1, read_idx = 1, count = 2\<rparr>)"
proof -
  let ?c = "\<lparr>data = [flat_sample 1, flat_sample 2], write_idx = 1, read_idx = 1, count = 2\<rparr>"
  have h: "count ?c = 2" by simp
  from push_full_rejected [OF h, of "flat_sample 3"] h show ?thesis
    by (simp add: prod_eq_iff)
qed

text \<open>
  Claim C2. Whenever \<open>count\<close> is 0, \<open>mem_cache_pop\<close> returns false, which is the "empty"
  outcome, and the cache after the call is the cache before the call: the same \<open>count\<close>,
  cursors and slots.
\<close>

theorem pop_empty_rejected:
  "count cache = 0 \<Longrightarrow>
   fst (mem_cache_pop C cache out) = False \<and>
   fst (snd (mem_cache_pop C cache out)) = cache \<and>
   count (fst (snd (mem_cache_pop C cache out))) = count cache \<and>
   write_idx (fst (snd (mem_cache_pop C cache out))) = write_idx cache \<and>
   read_idx (fst (snd (mem_cache_pop C cache out))) = read_idx cache \<and>
   data (fst (snd (mem_cache_pop C cache out))) = data cache"
  by (simp add: mem_cache_pop_def)

theorem pop_empty_rejected_witness:
  "count (mem_cache_init (static_cache 2)) = 0 \<and>
   fst (mem_cache_pop 2 (mem_cache_init (static_cache 2)) (flat_sample 9)) = False \<and>
   fst (snd (mem_cache_pop 2 (mem_cache_init (static_cache 2)) (flat_sample 9))) =
     \<lparr>data = [zero_sample, zero_sample], write_idx = 0, read_idx = 0, count = 0\<rparr>"
proof -
  have h: "count (mem_cache_init (static_cache 2)) = 0" by (simp add: mem_cache_init_def)
  from pop_empty_rejected [OF h, of 2 "flat_sample 9"] h show ?thesis
    by (simp add: mem_cache_init_def static_cache_def eval_nat_numeral)
qed

text \<open>
  Claim C10. Whenever \<open>count\<close> is 0, \<open>mem_cache_pop\<close> does not write through its output
  parameter: the caller's buffer holds after the call what it held before, and the call
  returns false.
\<close>

theorem pop_empty_out_untouched:
  "count cache = 0 \<Longrightarrow>
   snd (snd (mem_cache_pop C cache out)) = out \<and> fst (mem_cache_pop C cache out) = False"
  by (simp add: mem_cache_pop_def)

theorem pop_empty_out_untouched_witness:
  "count (mem_cache_init (static_cache 2)) = 0 \<and>
   snd (snd (mem_cache_pop 2 (mem_cache_init (static_cache 2)) (flat_sample 9))) = flat_sample 9 \<and>
   fst (mem_cache_pop 2 (mem_cache_init (static_cache 2)) (flat_sample 9)) = False"
proof -
  have h: "count (mem_cache_init (static_cache 2)) = 0" by (simp add: mem_cache_init_def)
  from pop_empty_out_untouched [OF h, of 2 "flat_sample 9"] h show ?thesis
    by simp
qed

section \<open>Counting and order\<close>

lemma cache_inv_init:
  "0 < C \<Longrightarrow> length (data cache0) = C \<Longrightarrow> cache_inv C (mem_cache_init cache0)"
  by (simp add: cache_inv_def mem_cache_init_def)

lemma contents_empty: "count cache = 0 \<Longrightarrow> contents C cache = []"
  by (simp add: contents_def)

lemma fst_run_append:
  "fst (run C cache (xs @ ys)) = fst (run C (fst (run C cache xs)) ys)"
  by (induction xs arbitrary: cache) (simp_all add: case_prod_beta)

lemma pop_front:
  assumes "cache_inv C cache" and "contents C cache = x # q"
  shows "fst (mem_cache_pop C cache out) \<and> snd (snd (mem_cache_pop C cache out)) = x"
proof -
  from step_refines [OF assms(1), of "Pop out"] assms(2)
  have "snd (step C cache (Pop out)) = Pop_ret True x" by simp
  then show ?thesis by (simp add: case_prod_beta)
qed

text \<open>
  Claim C3, as stated, counts every push. A push that is rejected leaves \<open>count\<close> as it
  is, so with capacity 1 two pushes and no pop give \<open>count = 1\<close>, not \<open>2 - 0\<close>.
\<close>

theorem count_all_pushes_counterexample:
  "int (count (fst (run 1 (mem_cache_init (static_cache 1))
                      [Push (flat_sample 1), Push (flat_sample 2)])))
   \<noteq> int (length (pushed (snd (run 1 (mem_cache_init (static_cache 1))
                                   [Push (flat_sample 1), Push (flat_sample 2)]))))
     - int (length (popped (snd (run 1 (mem_cache_init (static_cache 1))
                                   [Push (flat_sample 1), Push (flat_sample 2)]))))"
  by (simp add: mem_cache_init_def static_cache_def mem_cache_push_def)

text \<open>
  Claim C3, amended. After every prefix of every sequence of pushes and pops applied to
  the cache that \<open>mem_cache_init\<close> leaves, \<open>0 \<le> count \<le> C\<close> and \<open>count\<close> is the number of
  pushes that returned true minus the number of pops that returned true.
\<close>

theorem count_tracks_accepted:
  "count (fst (run C (mem_cache_init cache0) (take n xs))) \<le> C \<and>
   int (count (fst (run C (mem_cache_init cache0) (take n xs)))) =
     int (length (accepted (snd (run C (mem_cache_init cache0) (take n xs)))))
     - int (length (popped (snd (run C (mem_cache_init cache0) (take n xs)))))"
proof -
  have z: "count (mem_cache_init cache0) = 0" by (simp add: mem_cache_init_def)
  then have "count (mem_cache_init cache0) \<le> C" by simp
  from run_count_le [OF this] run_count [of C "mem_cache_init cache0" "take n xs"] z
  show ?thesis by simp
qed

text \<open>
  Claim C4, as stated, equates the popped samples with the pushed samples. Samples still
  queued have been pushed and not popped: after a single accepted push the pops are
  empty and the pushes are not.
\<close>

theorem pops_equal_pushes_counterexample:
  "\<not> rejected (snd (run 1 (mem_cache_init (static_cache 1)) [Push (flat_sample 1)])) \<and>
   popped (snd (run 1 (mem_cache_init (static_cache 1)) [Push (flat_sample 1)]))
   \<noteq> pushed (snd (run 1 (mem_cache_init (static_cache 1)) [Push (flat_sample 1)]))"
  by (simp add: mem_cache_init_def static_cache_def mem_cache_push_def)

text \<open>
  Claim C4, amended. In every run from the initial state in which no push is rejected,
  the samples passed to the pushes are, in order, the samples returned by the successful
  pops followed by the samples still queued. So the pops return a prefix of the pushed
  sequence, in the same order, and all of it when the run ends with \<open>count = 0\<close>.
\<close>

theorem fifo_order:
  assumes "0 < C" and "length (data cache0) = C"
    and "\<not> rejected (snd (run C (mem_cache_init cache0) xs))"
  shows "pushed (snd (run C (mem_cache_init cache0) xs)) =
           popped (snd (run C (mem_cache_init cache0) xs)) @
           contents C (fst (run C (mem_cache_init cache0) xs)) \<and>
         length (contents C (fst (run C (mem_cache_init cache0) xs))) =
           count (fst (run C (mem_cache_init cache0) xs))"
proof -
  let ?c = "mem_cache_init cache0"
  have inv: "cache_inv C ?c" using assms(1,2) by (rule cache_inv_init)
  have e: "contents C ?c = []" by (rule contents_empty) (simp add: mem_cache_init_def)
  from run_refines [OF inv, of xs] e
  have q: "queue_run C [] xs = (contents C (fst (run C ?c xs)), snd (run C ?c xs))" by simp
  from queue_run_fifo [of "[]" C xs] q
  have "accepted (snd (run C ?c xs)) = popped (snd (run C ?c xs)) @ contents C (fst (run C ?c xs))"
    by simp
  with accepted_pushed [OF assms(3)] show ?thesis by (simp add: length_contents)
qed

theorem fifo_order_witness:
  "(0::nat) < 2 \<and> length (data (static_cache 2)) = 2 \<and>
   \<not> rejected (snd (run 2 (mem_cache_init (static_cache 2))
        [Push (flat_sample 1), Pop zero_sample, Push (flat_sample 2), Push (flat_sample 3),
         Pop zero_sample])) \<and>
   pushed (snd (run 2 (mem_cache_init (static_cache 2))
        [Push (flat_sample 1), Pop zero_sample, Push (flat_sample 2), Push (flat_sample 3),
         Pop zero_sample])) = [flat_sample 1, flat_sample 2, flat_sample 3] \<and>
   popped (snd (run 2 (mem_cache_init (static_cache 2))
        [Push (flat_sample 1), Pop zero_sample, Push (flat_sample 2), Push (flat_sample 3),
         Pop zero_sample])) = [flat_sample 1, flat_sample 2] \<and>
   contents 2 (fst (run 2 (mem_cache_init (static_cache 2))
        [Push (flat_sample 1), Pop zero_sample, Push (flat_sample 2), Push (flat_sample 3),
         Pop zero_sample])) = [flat_sample 3]"
proof -
  let ?xs = "[Push (flat_sample 1), Pop zero_sample, Push (flat_sample 2), Push (flat_sample 3),
         Pop zero_sample]"
  have h1: "(0::nat) < 2" by simp
  have h2: "length (data (static_cache 2)) = 2" by (simp add: static_cache_def)
  have r: "run 2 (mem_cache_init (static_cache 2)) ?xs =
    (\<lparr>data = [flat_sample 3, flat_sample 2], write_idx = 1, read_idx = 0, count = 1\<rparr>,
     [Push_ret (flat_sample 1) True, Pop_ret True (flat_sample 1),
      Push_ret (flat_sample 2) True, Push_ret (flat_sample 3) True,
      Pop_ret True (flat_sample 2)])"
    by (simp add: mem_cache_init_def static_cache_def mem_cache_push_def mem_cache_pop_def
        eval_nat_numeral)
  have h3: "\<not> rejected (snd (run 2 (mem_cache_init (static_cache 2)) ?xs))"
    unfolding r by simp
  from fifo_order [OF h1 h2 h3] h1 h2 h3 show ?thesis
    unfolding r by (simp add: contents_def)
qed

text \<open>
  Claim C5, as stated, asks for capacity at least 2. With capacity 2 the cache is full
  again once \<open>A\<close> is requeued, the push of the third sample is rejected, and the three
  pops yield \<open>B\<close>, \<open>A\<close> and "empty".
\<close>

theorem requeue_capacity_two_counterexample:
  "drop 5 (snd (run 2 (mem_cache_init (static_cache 2))
             [Push (flat_sample 1), Push (flat_sample 2), Pop zero_sample, Push (flat_sample 1),
              Push (flat_sample 3), Pop zero_sample, Pop zero_sample, Pop zero_sample])) =
     [Pop_ret True (flat_sample 2), Pop_ret True (flat_sample 1), Pop_ret False zero_sample] \<and>
   drop 5 (snd (run 2 (mem_cache_init (static_cache 2))
             [Push (flat_sample 1), Push (flat_sample 2), Pop zero_sample, Push (flat_sample 1),
              Push (flat_sample 3), Pop zero_sample, Pop zero_sample, Pop zero_sample])) \<noteq>
     [Pop_ret True (flat_sample 2), Pop_ret True (flat_sample 1), Pop_ret True (flat_sample 3)]"
  by (simp add: mem_cache_init_def static_cache_def mem_cache_push_def mem_cache_pop_def
      eval_nat_numeral)

text \<open>
  Claim C5, amended. Starting from an empty cache of capacity at least 3: push \<open>A\<close>, push
  \<open>B\<close>, pop (which yields \<open>A\<close>), push \<open>A\<close> again, push \<open>Cs\<close>; the next three pops yield \<open>B\<close>,
  then \<open>A\<close>, then \<open>Cs\<close>. The pop followed by the push of \<open>A\<close> is what one activation of
  \<open>tx_timer_handler\<close> does when the notification of \<open>A\<close> fails.
\<close>

theorem requeue_goes_to_tail:
  assumes "3 \<le> C" and "cache_inv C cache" and "count cache = 0"
    and "current_conn app_data = Some conn" and "notify_enabled app_data"
    and "bt_gatt_notify conn A \<noteq> 0"
  shows "snd (run C cache [Push A, Push B, Pop o1, Push A, Push Cs, Pop o2, Pop o3, Pop o4]) =
           [Push_ret A True, Push_ret B True, Pop_ret True A, Push_ret A True, Push_ret Cs True,
            Pop_ret True B, Pop_ret True A, Pop_ret True Cs] \<and>
         tx_timer_handler C bt_gatt_notify app_data o1 (fst (run C cache [Push A, Push B])) =
           (fst (run C cache [Push A, Push B, Pop o1, Push A]),
            [LOG_WRN ''Notify failed (err %d), re-pushing sample to cache'' [bt_gatt_notify conn A]],
            [Call_pop, Call_notify conn A, Call_push A])"
proof -
  have e: "contents C cache = []" using assms(3) by (rule contents_empty)
  have n: "0 \<noteq> C" "Suc 0 \<noteq> C" "2 \<noteq> C" using assms(1) by simp_all
  let ?xs = "[Push A, Push B, Pop o1, Push A, Push Cs, Pop o2, Pop o3, Pop o4]"
  have "queue_run C [] ?xs =
          ([], [Push_ret A True, Push_ret B True, Pop_ret True A, Push_ret A True,
                Push_ret Cs True, Pop_ret True B, Pop_ret True A, Pop_ret True Cs])"
    using n by simp
  with run_refines [OF assms(2), of ?xs] e have first: "snd (run C cache ?xs) =
      [Push_ret A True, Push_ret B True, Pop_ret True A, Push_ret A True, Push_ret Cs True,
       Pop_ret True B, Pop_ret True A, Pop_ret True Cs]"
    by simp
  let ?c2 = "fst (run C cache [Push A, Push B])"
  have "queue_run C [] [Push A, Push B] = ([A, B], [Push_ret A True, Push_ret B True])"
    using n by simp
  with run_refines [OF assms(2), of "[Push A, Push B]"] e
  have c2: "cache_inv C ?c2" "contents C ?c2 = [A, B]" by simp_all
  from pop_front [OF c2, of o1]
  have p: "fst (mem_cache_pop C ?c2 o1)" "snd (snd (mem_cache_pop C ?c2 o1)) = A" by simp_all
  have "fst (run C cache ([Push A, Push B] @ [Pop o1, Push A])) =
        snd (mem_cache_push C (fst (snd (mem_cache_pop C ?c2 o1))) A)"
    unfolding fst_run_append by (simp add: case_prod_beta)
  then have r: "fst (run C cache [Push A, Push B, Pop o1, Push A]) =
        snd (mem_cache_push C (fst (snd (mem_cache_pop C ?c2 o1))) A)"
    by simp
  have second: "tx_timer_handler C bt_gatt_notify app_data o1 ?c2 =
           (fst (run C cache [Push A, Push B, Pop o1, Push A]),
            [LOG_WRN ''Notify failed (err %d), re-pushing sample to cache'' [bt_gatt_notify conn A]],
            [Call_pop, Call_notify conn A, Call_push A])"
    unfolding r tx_timer_handler_def using assms(4,5,6) p
    by (simp add: case_prod_beta Let_def)
  from first second show ?thesis by simp
qed

theorem requeue_goes_to_tail_witness:
  "(3::nat) \<le> 3 \<and> cache_inv 3 (mem_cache_init (static_cache 3)) \<and>
   count (mem_cache_init (static_cache 3)) = 0 \<and>
   current_conn \<lparr>current_conn = Some 1, notify_enabled = True\<rparr> = Some 1 \<and>
   notify_enabled \<lparr>current_conn = Some 1, notify_enabled = True\<rparr> \<and>
   (\<lambda>conn sample. - 12) (1::nat) (flat_sample 1) \<noteq> (0::int) \<and>
   snd (run 3 (mem_cache_init (static_cache 3))
          [Push (flat_sample 1), Push (flat_sample 2), Pop zero_sample, Push (flat_sample 1),
           Push (flat_sample 3), Pop zero_sample, Pop zero_sample, Pop zero_sample]) =
     [Push_ret (flat_sample 1) True, Push_ret (flat_sample 2) True, Pop_ret True (flat_sample 1),
      Push_ret (flat_sample 1) True, Push_ret (flat_sample 3) True,
      Pop_ret True (flat_sample 2), Pop_ret True (flat_sample 1), Pop_ret True (flat_sample 3)]"
proof -
  let ?app = "\<lparr>current_conn = Some 1, notify_enabled = True\<rparr>"
  let ?notify = "\<lambda>(conn::nat) (sample::sensor_sample_t). - 12 :: int"
  have h1: "(3::nat) \<le> 3" by simp
  have h2: "cache_inv 3 (mem_cache_init (static_cache 3))"
    by (simp add: cache_inv_def mem_cache_init_def static_cache_def)
  have h3: "count (mem_cache_init (static_cache 3)) = 0" by (simp add: mem_cache_init_def)
  have h4: "current_conn ?app = Some 1" by simp
  have h5: "notify_enabled ?app" by simp
  have h6: "?notify 1 (flat_sample 1) \<noteq> 0" by simp
  from requeue_goes_to_tail [where bt_gatt_notify = ?notify and B = "flat_sample 2"
      and Cs = "flat_sample 3" and ?o1.0 = zero_sample and ?o2.0 = zero_sample
      and ?o3.0 = zero_sample and ?o4.0 = zero_sample, OF h1 h2 h3 h4 h5 h6]
    h2 h3
  show ?thesis by simp
qed

section \<open>The consumer\<close>

text \<open>
  Claim C8. When there is no connection or notifications are not enabled, an activation
  of \<open>tx_timer_handler\<close> makes no call, so it does not pop, logs nothing, and leaves
  \<open>count\<close>, both cursors and every slot of the cache as they were.
\<close>

theorem tx_gated_noop:
  "current_conn app_data = None \<or> \<not> notify_enabled app_data \<Longrightarrow>
   tx_timer_handler C bt_gatt_notify app_data sample cache = (cache, [], []) \<and>
   Call_pop \<notin> set (snd (snd (tx_timer_handler C bt_gatt_notify app_data sample cache))) \<and>
   count (fst (tx_timer_handler C bt_gatt_notify app_data sample cache)) = count cache \<and>
   write_idx (fst (tx_timer_handler C bt_gatt_notify app_data sample cache)) = write_idx cache \<and>
   read_idx (fst (tx_timer_handler C bt_gatt_notify app_data sample cache)) = read_idx cache \<and>
   data (fst (tx_timer_handler C bt_gatt_notify app_data sample cache)) = data cache"
  by (auto simp: tx_timer_handler_def split: option.splits)

theorem tx_gated_noop_witness:
  "(current_conn \<lparr>current_conn = Some 1, notify_enabled = False\<rparr> = None \<or>
    \<not> notify_enabled \<lparr>current_conn = Some 1, notify_enabled = False\<rparr>) \<and>
   tx_timer_handler 2 (\<lambda>conn sample. 0) \<lparr>current_conn = Some 1, notify_enabled = False\<rparr>
     zero_sample
     \<lparr>data = [flat_sample 1, flat_sample 2], write_idx = 1, read_idx = 0, count = 1\<rparr> =
   (\<lparr>data = [flat_sample 1, flat_sample 2], write_idx = 1, read_idx = 0, count = 1\<rparr>, [], [])"
proof -
  let ?app = "\<lparr>current_conn = Some (1::nat), notify_enabled = False\<rparr>"
  have h: "current_conn ?app = None \<or> \<not> notify_enabled ?app" by simp
  from tx_gated_noop [OF h, of 2 "\<lambda>conn sample. 0" zero_sample
      "\<lparr>data = [flat_sample 1, flat_sample 2], write_idx = 1, read_idx = 0, count = 1\<rparr>"] h
  show ?thesis by simp
qed

text \<open>
  When the notification fails, the requeue finds the slot that the pop of the same
  activation has just freed: \<open>mem_cache_push\<close> accepts the sample, which goes from the front
  of the queue to its back, and \<open>count\<close> is what it was before the activation.
\<close>

lemma requeue_accepted:
  assumes "cache_inv C cache" and "count cache \<noteq> 0"
  shows "fst (mem_cache_push C (fst (snd (mem_cache_pop C cache out))) sample)"
  using assms by (auto simp: cache_inv_def mem_cache_pop_def mem_cache_push_def)

lemma tx_failed_delivery_requeues:
  assumes inv: "cache_inv C cache" and q: "contents C cache = x # q"
    and conn: "current_conn app_data = Some conn" and en: "notify_enabled app_data"
    and err: "bt_gatt_notify conn x \<noteq> 0"
  shows "contents C (fst (tx_timer_handler C bt_gatt_notify app_data sample cache)) = q @ [x] \<and>
         count (fst (tx_timer_handler C bt_gatt_notify app_data sample cache)) = count cache \<and>
         snd (tx_timer_handler C bt_gatt_notify app_data sample cache) =
           ([LOG_WRN ''Notify failed (err %d), re-pushing sample to cache'' [bt_gatt_notify conn x]],
            [Call_pop, Call_notify conn x, Call_push x])"
proof -
  let ?c1 = "fst (snd (mem_cache_pop C cache sample))"
  let ?c2 = "snd (mem_cache_push C ?c1 x)"
  have n: "count cache \<noteq> 0" using q length_contents [of C cache] by auto
  from pop_front [OF inv q, of sample]
  have p: "fst (mem_cache_pop C cache sample)" "snd (snd (mem_cache_pop C cache sample)) = x"
    by simp_all
  from contents_pop [OF inv n, of sample] q p(2)
  have c1: "contents C ?c1 = q" by simp
  have inv1: "cache_inv C ?c1" using inv by (rule cache_inv_pop)
  have k1: "Suc (count ?c1) = count cache" using n by (simp add: mem_cache_pop_def)
  have "count cache \<le> C" using inv by (simp add: cache_inv_def)
  with k1 have room: "count ?c1 \<noteq> C" by simp
  from contents_push [OF inv1 room, of x] c1
  have c2: "contents C ?c2 = q @ [x]" by simp
  have k2: "count ?c2 = count cache" using room k1 by (simp add: mem_cache_push_def)
  have h: "tx_timer_handler C bt_gatt_notify app_data sample cache =
        (?c2, [LOG_WRN ''Notify failed (err %d), re-pushing sample to cache'' [bt_gatt_notify conn x]],
         [Call_pop, Call_notify conn x, Call_push x])"
    unfolding tx_timer_handler_def using conn en err p
    by (simp add: case_prod_beta Let_def)
  show ?thesis unfolding h using c2 k2 by simp
qed

section \<open>The decoder\<close>

lemma unat_and_mask_mod: "unat ((w::16 word) AND mask n) = unat w mod 2 ^ n"
proof -
  have "unat (w AND mask n) = unat (take_bit n w)" by (simp only: take_bit_eq_mask)
  also have "\<dots> = take_bit n (unat w)" by (rule unsigned_take_bit_eq)
  also have "\<dots> = unat w mod 2 ^ n" by (rule take_bit_eq_mod)
  finally show ?thesis .
qed

lemma unat_drop_bit_div: "unat (drop_bit n (w::16 word)) = unat w div 2 ^ n"
proof -
  have "unat (drop_bit n w) = drop_bit n (unat w)" by (rule unat_drop_bit_eq)
  also have "\<dots> = unat w div 2 ^ n" by (rule drop_bit_eq_div)
  finally show ?thesis .
qed

lemma mant_unat: "unat ((u::16 word) AND 0x03FF) = unat u mod 2 ^ 10"
proof -
  have "(0x03FF :: 16 word) = mask 10" by (simp add: mask_eq_exp_minus_1)
  then show ?thesis by (simp only: unat_and_mask_mod)
qed

lemma expn_unat: "unat (drop_bit 10 (u::16 word) AND 0x1F) = unat u div 2 ^ 10 mod 2 ^ 5"
proof -
  have "(0x1F :: 16 word) = mask 5" by (simp add: mask_eq_exp_minus_1)
  then show ?thesis by (simp only: unat_and_mask_mod unat_drop_bit_div)
qed

lemma sign_unat: "unat (drop_bit 15 (u::16 word) AND 0x1) = unat u div 2 ^ 15 mod 2"
proof -
  have "unat (drop_bit 15 u AND mask 1) = unat u div 2 ^ 15 mod 2 ^ 1"
    by (simp only: unat_and_mask_mod unat_drop_bit_div)
  then show ?thesis by (simp add: mask_1)
qed

lemma word16_zero_iff: "(w::16 word) = 0 \<longleftrightarrow> unat w = 0"
  by (simp add: unat_eq_0)

lemma decode_refines: "uint16_to_double u16 = half_precision_value (unat u16)"
proof -
  let ?e = "unat u16 div 2 ^ 10 mod 2 ^ 5" and ?m = "unat u16 mod 2 ^ 10"
  have s: "drop_bit 15 u16 AND 0x1 \<noteq> 0 \<longleftrightarrow> half_sign (unat u16)"
    by (simp only: word16_zero_iff sign_unat half_sign_def) presburger
  have e0: "drop_bit 10 u16 AND 0x1F = 0 \<longleftrightarrow> half_exponent (unat u16) = 0"
    by (simp only: word16_zero_iff expn_unat half_exponent_def)
  have e31: "drop_bit 10 u16 AND 0x1F = 31 \<longleftrightarrow> half_exponent (unat u16) = 31"
    by (simp only: word_unat_eq_iff [of _ "31::16 word"] expn_unat half_exponent_def) simp
  have ei: "uint (drop_bit 10 u16 AND 0x1F) = int (half_exponent (unat u16))"
    by (simp only: half_exponent_def expn_unat [symmetric]) simp
  have m0: "u16 AND 0x03FF \<noteq> 0 \<longleftrightarrow> half_mantissa (unat u16) \<noteq> 0"
    by (simp only: word16_zero_iff mant_unat half_mantissa_def)
  have md: "double_of_uint16 (u16 AND 0x03FF) = Finite False (of_nat (half_mantissa (unat u16)))"
    by (simp only: double_of_uint16_def mant_unat half_mantissa_def)
  have pos: "(0::rat) < 1 + of_nat k / 1024" for k :: nat
    by (simp add: add_pos_nonneg)
  have add: "double_add (Finite False 1) (double_div (Finite False (of_nat k)) (Finite False 1024)) =
             Finite False (1 + of_nat k / 1024)" for k :: nat
    using pos [of k] by (simp add: signed_value_def Let_def)
  show ?thesis
    unfolding uint16_to_double_def half_precision_value_def Let_def s e0 e31 ei m0 md add
    by (simp add: INFINITY_def)
qed

lemma decoder_examples: "uint16_to_double 0x0000 = Finite False 0
  \<and> uint16_to_double 0x8000 = Finite True 0
  \<and> uint16_to_double 0x3C00 = Finite False 1
  \<and> uint16_to_double 0x7C00 = Infinity False
  \<and> uint16_to_double 0xFC00 = Infinity True
  \<and> uint16_to_double 0x7E00 = NaN
  \<and> uint16_to_double 0x0001 = Finite False (2 powi (- 24))
  \<and> uint16_to_double 0x7BFF = Finite False 65504"
  by (simp add: uint16_to_double_def double_of_uint16_def INFINITY_def signed_value_def
      power_int_def)

text \<open>
  Claim C6. For every 16-bit input \<open>uint16_to_double\<close> returns the half-precision value of
  the specification: with exponent field 0 the mantissa times \<open>2 ^ (- 24)\<close>, signed; with
  exponent field 31 NaN for a nonzero mantissa and the signed infinity otherwise; else
  \<open>(1 + mantissa / 1024) * 2 ^ (exponent - 15)\<close>, signed. In particular it maps 0x0000 to
  0.0, 0x8000 to -0.0, 0x3C00 to 1.0, 0x7C00 to +infinity, 0xFC00 to -infinity, 0x7E00 to
  NaN, 0x0001 to \<open>2 ^ (- 24)\<close> and 0x7BFF to 65504.0. The function is total: every input
  has a result and there is no error value.
\<close>

theorem uint16_to_double_half_precision:
  "uint16_to_double u16 = half_precision_value (unat u16) \<and>
   uint16_to_double 0x0000 = Finite False 0 \<and>
   uint16_to_double 0x8000 = Finite True 0 \<and>
   uint16_to_double 0x3C00 = Finite False 1 \<and>
   uint16_to_double 0x7C00 = Infinity False \<and>
   uint16_to_double 0xFC00 = Infinity True \<and>
   uint16_to_double 0x7E00 = NaN \<and>
   uint16_to_double 0x0001 = Finite False (2 powi (- 24)) \<and>
   uint16_to_double 0x7BFF = Finite False 65504"
  by (rule conjI [OF decode_refines decoder_examples])

text \<open>
  Every value the decoder computes on the way is a binary64 value, so the exact
  arithmetic of the model is the arithmetic of the C code.
\<close>

lemma binary64_exact_scaled:
  assumes "k < (2::nat) ^ 53" and "- 1074 \<le> e" and "e \<le> 971"
  shows "binary64_exact (of_nat k * 2 powi e)"
  unfolding binary64_exact_def using assms by blast

lemma powi_minus_10: "(2::rat) powi (- 10) = 1 / 1024"
  by simp

lemma powi_shift: "(2::rat) powi (- 10) * 2 powi (e - 15) = 2 powi (e - 25)"
proof -
  have "(2::rat) powi (- 10) * 2 powi (e - 15) = 2 powi (- 10 + (e - 15))"
    by (rule power_int_add [symmetric]) simp
  then show ?thesis by simp
qed

lemma decoder_steps_exact:
  fixes n :: nat and e :: int
  assumes n: "n < 1024" and e: "0 \<le> e" "e < 32"
  shows "representable (Finite False (of_nat n))"
    and "representable (ldexp (Finite False (of_nat n)) (- 24))"
    and "representable (double_div (Finite False (of_nat n)) (Finite False 1024))"
    and "representable (double_add (Finite False 1)
           (double_div (Finite False (of_nat n)) (Finite False 1024)))"
    and "representable (ldexp (double_add (Finite False 1)
           (double_div (Finite False (of_nat n)) (Finite False 1024))) (e - 15))"
proof -
  have k: "n < 2 ^ 53" "1024 + n < 2 ^ 53" using n by simp_all
  from binary64_exact_scaled [OF k(1), of 0]
  show "representable (Finite False (of_nat n))" by simp
  from binary64_exact_scaled [OF k(1), of "- 24"]
  show "representable (ldexp (Finite False (of_nat n)) (- 24))" by simp
  have d: "double_div (Finite False (of_nat n)) (Finite False 1024) =
           Finite False (of_nat n * 2 powi (- 10))"
    by (simp add: powi_minus_10)
  from binary64_exact_scaled [OF k(1), of "- 10"]
  show "representable (double_div (Finite False (of_nat n)) (Finite False 1024))"
    unfolding d by simp
  have "(0::rat) < 1 + of_nat n * 2 powi (- 10)"
    by (simp add: add_pos_nonneg)
  moreover have "(1::rat) + of_nat n * 2 powi (- 10) = of_nat (1024 + n) * 2 powi (- 10)"
    by (simp add: powi_minus_10 field_simps)
  ultimately have a: "double_add (Finite False 1)
        (double_div (Finite False (of_nat n)) (Finite False 1024)) =
        Finite False (of_nat (1024 + n) * 2 powi (- 10))"
    unfolding d by (simp add: signed_value_def Let_def del: of_nat_add)
  from binary64_exact_scaled [OF k(2), of "- 10"]
  show "representable (double_add (Finite False 1)
           (double_div (Finite False (of_nat n)) (Finite False 1024)))"
    unfolding a by simp
  from powi_shift [of e] have "of_nat (1024 + n) * 2 powi (- 10) * 2 powi (e - 15) =
        (of_nat (1024 + n) :: rat) * 2 powi (e - 25)"
    by (simp only: mult.assoc)
  then have l: "ldexp (double_add (Finite False 1)
           (double_div (Finite False (of_nat n)) (Finite False 1024))) (e - 15) =
        Finite False (of_nat (1024 + n) * 2 powi (e - 25))"
    unfolding a by (simp only: ldexp.simps)
  have "- 1074 \<le> e - 25" "e - 25 \<le> 971" using e by simp_all
  from binary64_exact_scaled [OF k(2) this]
  show "representable (ldexp (double_add (Finite False 1)
           (double_div (Finite False (of_nat n)) (Finite False 1024))) (e - 15))"
    unfolding l by simp
qed

lemma mant_bound: "unat ((u::16 word) AND 0x03FF) < 1024"
  by (simp only: mant_unat) simp

lemma expn_bound:
  "0 \<le> uint (drop_bit 10 (u::16 word) AND 0x1F)" "uint (drop_bit 10 (u::16 word) AND 0x1F) < 32"
proof -
  have "unat (drop_bit 10 u AND 0x1F) < 32" by (simp only: expn_unat) simp
  then have "int (unat (drop_bit 10 u AND 0x1F)) < 32" by linarith
  then show "uint (drop_bit 10 u AND 0x1F) < 32" by (simp only: uint_nat)
  show "0 \<le> uint (drop_bit 10 u AND 0x1F)" by (rule uint_ge_0)
qed

lemma uint16_to_double_exact:
  fixes u16 :: "16 word"
  shows "representable (double_of_uint16 (u16 AND 0x03FF))"
    and "representable (ldexp (double_of_uint16 (u16 AND 0x03FF)) (- 24))"
    and "representable (double_div (double_of_uint16 (u16 AND 0x03FF)) (Finite False 1024))"
    and "representable (double_add (Finite False 1)
           (double_div (double_of_uint16 (u16 AND 0x03FF)) (Finite False 1024)))"
    and "representable (ldexp (double_add (Finite False 1)
           (double_div (double_of_uint16 (u16 AND 0x03FF)) (Finite False 1024)))
           (uint (drop_bit 10 u16 AND 0x1F) - 15))"
  unfolding double_of_uint16_def
  by (rule decoder_steps_exact [OF mant_bound expn_bound])+

end
